theory Spec2Isabelle
  imports
    Complex_Main
    "HOL-Library.Multiset"
    "HOL-Library.Char_ord"
    "HOL-Library.List_Lexorder"
    "HOL-Library.Product_Lexorder"
begin

section \<open>Python values\<close>

text \<open>
  The schema handled by \<^verbatim>\<open>export.py\<close> is a JSON-like value: nested dicts with string
  keys whose leaves are numbers, strings, lists and \<^verbatim>\<open>None\<close>. A dict is an association
  list in the order in which \<^verbatim>\<open>items()\<close> enumerates it; a Python dict has pairwise
  distinct keys, which the statements below assume where it matters. A float is a
  finite double, given by its exact value; infinities and NaN are not modelled.
\<close>

datatype pyval =
    PNone
  | PBool bool
  | PInt int
  | PFloat rat
  | PStr string
  | PList "pyval list"
  | PDict "(string \<times> pyval) list"

text \<open>
  The exceptions the modelled code can raise. \<^verbatim>\<open>OutsideModel\<close> is no Python exception:
  it marks an input on which Python's behaviour is not modelled (the order Python 2 gives
  to values of different types, \<^verbatim>\<open>str\<close> of a float or a container, and the rounded product
  of a float).
\<close>

datatype error = KeyError | TypeError | AttributeError | IndexError | LookupError | OutsideModel

text \<open>\<^verbatim>\<open>d[key]\<close> with a string key: only a dict supports it.\<close>

fun py_getitem :: "pyval \<Rightarrow> string \<Rightarrow> error + pyval" where
  "py_getitem (PDict items) key =
     (case map_of items key of None \<Rightarrow> Inl KeyError | Some v \<Rightarrow> Inr v)"
| "py_getitem d key = Inl TypeError"

text \<open>\<^verbatim>\<open>d.get(key, None)\<close>: a method of dicts only.\<close>

fun py_get :: "pyval \<Rightarrow> string \<Rightarrow> error + pyval" where
  "py_get (PDict items) key =
     (case map_of items key of None \<Rightarrow> Inr PNone | Some v \<Rightarrow> Inr v)"
| "py_get d key = Inl AttributeError"

text \<open>\<^verbatim>\<open>d.items()\<close>: a method of dicts only.\<close>

fun py_items :: "pyval \<Rightarrow> error + (string \<times> pyval) list" where
  "py_items (PDict items) = Inr items"
| "py_items d = Inl AttributeError"

text \<open>Truth value of a Python object, as \<^verbatim>\<open>or\<close> and \<^verbatim>\<open>not\<close> test it.\<close>

fun py_truthy :: "pyval \<Rightarrow> bool" where
  "py_truthy PNone = False"
| "py_truthy (PBool b) = b"
| "py_truthy (PInt n) = (n \<noteq> 0)"
| "py_truthy (PFloat r) = (r \<noteq> 0)"
| "py_truthy (PStr s) = (s \<noteq> [])"
| "py_truthy (PList xs) = (xs \<noteq> [])"
| "py_truthy (PDict items) = (items \<noteq> [])"

definition py_or :: "pyval \<Rightarrow> pyval \<Rightarrow> pyval" where
  "py_or a b = (if py_truthy a then a else b)"

text \<open>Keys of a dict; a value that is no dict has none.\<close>

fun dict_keys :: "pyval \<Rightarrow> string list" where
  "dict_keys (PDict items) = map fst items"
| "dict_keys d = []"

text \<open>Following a path of keys down nested dicts.\<close>

fun dict_path :: "string list \<Rightarrow> pyval \<Rightarrow> pyval option" where
  "dict_path [] d = Some d"
| "dict_path (k # ks) (PDict items) =
     (case map_of items k of None \<Rightarrow> None | Some v \<Rightarrow> dict_path ks v)"
| "dict_path (k # ks) d = None"

section \<open>Filtering: \<^verbatim>\<open>_SchemaPreProcessing.filter_data\<close>\<close>

definition count_keys :: "string list" where
  "count_keys = [''count'', ''types_count'', ''prop_in_object'', ''array_types_count'']"

fun filter_data :: "pyval \<Rightarrow> pyval" where
  "filter_data (PDict items) =
     PDict (map (\<lambda>(k, v). (k, filter_data v))
                (filter (\<lambda>(k, v). k \<notin> set count_keys) items))"
| "filter_data data = data"

text \<open>No count key at any dict level reachable through dict values.\<close>

fun without_counts :: "pyval \<Rightarrow> bool" where
  "without_counts (PDict items) =
     list_all (\<lambda>(k, v). k \<notin> set count_keys \<and> without_counts v) items"
| "without_counts d = True"

section \<open>The type lattice: \<^verbatim>\<open>mongo_sql_types.py\<close>\<close>

datatype type_node = TreeNode string "type_node list"

text \<open>\<^verbatim>\<open>TYPES_TREE_STR\<close>, read in Newick format 8 (every node carries its name).\<close>

definition TYPES_TREE :: type_node where
  "TYPES_TREE =
     TreeNode ''mixed_scalar_object''
       [TreeNode ''general_scalar''
          [TreeNode ''number''
             [TreeNode ''float'' [],
              TreeNode ''biginteger'' [TreeNode ''integer'' [TreeNode ''boolean'' []]]],
           TreeNode ''string'' [TreeNode ''oid'' [], TreeNode ''dbref'' []],
           TreeNode ''date'' [],
           TreeNode ''timestamp'' [],
           TreeNode ''unknown'' []],
        TreeNode ''object'' []]"

text \<open>Every node with the names on the way from it up to the root, itself first.\<close>

fun up_paths :: "string list \<Rightarrow> type_node \<Rightarrow> (string \<times> string list) list" where
  "up_paths anc (TreeNode n cs) = (n, n # anc) # concat (map (up_paths (n # anc)) cs)"

definition ancestors_of :: "type_node \<Rightarrow> string \<Rightarrow> string list option" where
  "ancestors_of t n = map_of (up_paths [] t) n"

fun all_found :: "'a option list \<Rightarrow> 'a list option" where
  "all_found [] = Some []"
| "all_found (None # xs) = None"
| "all_found (Some x # xs) = (case all_found xs of None \<Rightarrow> None | Some ys \<Rightarrow> Some (x # ys))"

text \<open>
  Modelled from the spec: \<^verbatim>\<open>Tree.get_common_ancestor\<close> belongs to the tree library and
  is not part of the sources. The spec (4.1) has it return the name of the lowest common
  ancestor of all listed types in the fixed taxonomy, and fail with a lookup error if a
  listed name has no node. The lowest common ancestor is searched on the way from the
  first listed type up to the root: the first node there that also lies above (or is)
  every other listed type. The spec is silent on an empty list, which
  \<^verbatim>\<open>common_parent_type\<close> never passes; it is a lookup error here.
\<close>

definition get_common_ancestor :: "type_node \<Rightarrow> string list \<Rightarrow> error + string" where
  "get_common_ancestor t names =
     (case all_found (map (ancestors_of t) names) of
        None \<Rightarrow> Inl LookupError
      | Some [] \<Rightarrow> Inl LookupError
      | Some (reference # others) \<Rightarrow>
          (case find (\<lambda>a. list_all (\<lambda>p. a \<in> set p) others) reference of
             None \<Rightarrow> Inl LookupError
           | Some a \<Rightarrow> Inr a))"

definition common_parent_type :: "string list \<Rightarrow> error + string" where
  "common_parent_type type_list =
     (if type_list = [] then Inr ''null''
      else if length type_list = 1 then Inr (type_list ! 0)
      else get_common_ancestor TYPES_TREE type_list)"

text \<open>Auxiliary notions for reasoning about the lattice.\<close>

definition chain_table :: "(string \<times> string list) list \<Rightarrow> bool" where
  "chain_table T =
     list_all (\<lambda>(n, p). distinct p \<and>
        list_all (\<lambda>a. map_of T a = Some (dropWhile (\<lambda>x. x \<noteq> a) p)) p) T"

definition depth :: "string \<Rightarrow> nat" where
  "depth a = (case ancestors_of TYPES_TREE a of None \<Rightarrow> 0 | Some p \<Rightarrow> length p)"

definition is_path :: "string list \<Rightarrow> bool" where
  "is_path p = (\<exists>n. ancestors_of TYPES_TREE n = Some p)"

definition lattice_names :: "string list" where
  "lattice_names = map fst (up_paths [] TYPES_TREE)"

section \<open>Helpers for loops and strings\<close>

text \<open>A loop whose body may raise: the first exception ends it.\<close>

fun traverse :: "('a \<Rightarrow> error + 'b) \<Rightarrow> 'a list \<Rightarrow> error + 'b list" where
  "traverse f [] = Inr []"
| "traverse f (x # xs) =
     (case f x of Inl e \<Rightarrow> Inl e
      | Inr y \<Rightarrow> (case traverse f xs of Inl e \<Rightarrow> Inl e | Inr ys \<Rightarrow> Inr (y # ys)))"

text \<open>\<^verbatim>\<open>s.split(sep)\<close> for a one-character separator, and \<^verbatim>\<open>sep.join(words)\<close>.\<close>

fun split_on :: "char \<Rightarrow> string \<Rightarrow> string list" where
  "split_on sep [] = [[]]"
| "split_on sep (c # cs) =
     (if c = sep then [] # split_on sep cs
      else (case split_on sep cs of [] \<Rightarrow> [[c]] | w # ws \<Rightarrow> (c # w) # ws))"

fun join :: "string \<Rightarrow> string list \<Rightarrow> string" where
  "join sep [] = []"
| "join sep [w] = w"
| "join sep (w # ws) = w @ sep @ join sep ws"

text \<open>\<^verbatim>\<open>str(n)\<close> for an integer.\<close>

definition digit_char :: "nat \<Rightarrow> char" where
  "digit_char d =
     (if d = 0 then CHR ''0'' else if d = 1 then CHR ''1'' else if d = 2 then CHR ''2''
      else if d = 3 then CHR ''3'' else if d = 4 then CHR ''4'' else if d = 5 then CHR ''5''
      else if d = 6 then CHR ''6'' else if d = 7 then CHR ''7'' else if d = 8 then CHR ''8''
      else CHR ''9'')"

fun str_nat :: "nat \<Rightarrow> string" where
  "str_nat n =
     (if n < 10 then [digit_char n]
      else str_nat (n div 10) @ [digit_char (n mod 10)])"

declare str_nat.simps [simp del]

definition str_int :: "int \<Rightarrow> string" where
  "str_int n = (if n < 0 then CHR ''-'' # str_nat (nat (- n)) else str_nat (nat n))"


section \<open>The diff strategy\<close>

record dataframe =
  df_columns :: "string list"
  df_rows :: "pyval list list"

text \<open>\<^verbatim>\<open>d['prev_schema'] or d['new_schema']\<close>\<close>

definition prev_or_new :: "pyval \<Rightarrow> error + pyval" where
  "prev_or_new d =
     (case py_getitem d ''prev_schema'' of Inl e \<Rightarrow> Inl e
      | Inr prev \<Rightarrow> if py_truthy prev then Inr prev else py_getitem d ''new_schema'')"

text \<open>\<^verbatim>\<open>d['hierarchy'].split('.')\<close>: a method of strings.\<close>

fun py_split_dots :: "pyval \<Rightarrow> error + string list" where
  "py_split_dots (PStr s) = Inr (split_on CHR ''.'' s)"
| "py_split_dots v = Inl AttributeError"

text \<open>The body of the loop of \<^verbatim>\<open>_DiffPreProcessing.convert_to_dataframe\<close>: the row of one record.\<close>

definition diff_line :: "pyval \<Rightarrow> error + pyval list" where
  "diff_line d =
     (case py_getitem d ''hierarchy'' of Inl e \<Rightarrow> Inl e
      | Inr h \<Rightarrow>
        (case
           (if \<not> py_truthy h then
              (case prev_or_new d of Inl e \<Rightarrow> Inl e
               | Inr db \<Rightarrow> Inr (db, PStr [], []))
            else
              (case py_split_dots h of Inl e \<Rightarrow> Inl e
               | Inr [] \<Rightarrow> Inl IndexError
               | Inr (db # hierarchy) \<Rightarrow>
                   if hierarchy = [] then
                     (case prev_or_new d of Inl e \<Rightarrow> Inl e
                      | Inr coll \<Rightarrow> Inr (PStr db, coll, hierarchy))
                   else Inr (PStr db, PStr (hd hierarchy), tl hierarchy)))
         of Inl e \<Rightarrow> Inl e
         | Inr (db, coll, hierarchy) \<Rightarrow>
           (case py_getitem d ''prev_schema'' of Inl e \<Rightarrow> Inl e
            | Inr prev \<Rightarrow>
              (case py_getitem d ''new_schema'' of Inl e \<Rightarrow> Inl e
               | Inr new \<Rightarrow> Inr [db, coll, PStr (join ''.'' hierarchy), prev, new]))))"

definition diff_convert_to_dataframe :: "pyval list \<Rightarrow> error + dataframe" where
  "diff_convert_to_dataframe data =
     (case traverse diff_line data of Inl e \<Rightarrow> Inl e
      | Inr table \<Rightarrow>
          Inr \<lparr>df_columns = [''Database'', ''Collection'', ''Hierarchy'',
                             ''Previous Schema'', ''New Schema''],
               df_rows = table\<rparr>)"

definition diff_record :: "string \<Rightarrow> pyval \<Rightarrow> pyval \<Rightarrow> pyval" where
  "diff_record h prev new = PDict [(''hierarchy'', PStr h), (''prev_schema'', prev), (''new_schema'', new)]"



text \<open>
  What the diff strategy computes, said without \<^verbatim>\<open>split\<close>, \<^verbatim>\<open>pop\<close> and \<^verbatim>\<open>join\<close>: the
  database is the path up to its first dot, the collection the part between the first
  and the second dot, the remaining hierarchy what follows the second dot. A path with
  no dot is the database, and the collection is then the first truthy one of the two
  schemas; with an empty path that value is the database and the collection is empty.
\<close>

definition diff_row_spec :: "string \<Rightarrow> pyval \<Rightarrow> pyval \<Rightarrow> pyval list" where
  "diff_row_spec h prev new =
     (if h = [] then [py_or prev new, PStr [], PStr [], prev, new]
      else if CHR ''.'' \<notin> set h then [PStr h, py_or prev new, PStr [], prev, new]
      else
        (let rest = tl (dropWhile (\<lambda>c. c \<noteq> CHR ''.'') h) in
           [PStr (takeWhile (\<lambda>c. c \<noteq> CHR ''.'') h),
            PStr (takeWhile (\<lambda>c. c \<noteq> CHR ''.'') rest),
            PStr (tl (dropWhile (\<lambda>c. c \<noteq> CHR ''.'') rest)),
            prev, new]))"

section \<open>The schema strategy: columns\<close>

text \<open>\<^verbatim>\<open>str.lower()\<close> on ASCII letters.\<close>

definition lower_char :: "char \<Rightarrow> char" where
  "lower_char c =
     (case map_of (zip ''ABCDEFGHIJKLMNOPQRSTUVWXYZ'' ''abcdefghijklmnopqrstuvwxyz'') c of
        None \<Rightarrow> c
      | Some l \<Rightarrow> l)"

definition lower :: "string \<Rightarrow> string" where
  "lower s = map lower_char s"




text \<open>
  \<^verbatim>\<open>100 * v\<close>: a product for ints, a hundredfold repetition for strings and lists. The
  product of a float is rounded to a double, which is not modelled.
\<close>

fun py_mul100 :: "pyval \<Rightarrow> error + pyval" where
  "py_mul100 (PInt n) = Inr (PInt (100 * n))"
| "py_mul100 (PBool b) = Inr (PInt (if b then 100 else 0))"
| "py_mul100 (PFloat r) = Inl OutsideModel"
| "py_mul100 (PStr s) = Inr (PStr (concat (replicate 100 s)))"
| "py_mul100 (PList xs) = Inr (PList (concat (replicate 100 xs)))"
| "py_mul100 v = Inl TypeError"

text \<open>\<^verbatim>\<open>str(v)\<close>, where its result is modelled.\<close>

fun py_str :: "pyval \<Rightarrow> error + string" where
  "py_str (PInt n) = Inr (str_int n)"
| "py_str (PStr s) = Inr s"
| "py_str PNone = Inr ''None''"
| "py_str (PBool b) = Inr (if b then ''True'' else ''False'')"
| "py_str v = Inl OutsideModel"

text \<open>\<^verbatim>\<open>'ARRAY(' + v + ')'\<close>: only a string can be appended to a string.\<close>

fun array_of :: "pyval \<Rightarrow> error + pyval" where
  "array_of (PStr s) = Inr (PStr (''ARRAY('' @ s @ '')''))"
| "array_of v = Inl TypeError"

text \<open>
  \<^verbatim>\<open>sorted(xs, key=key)\<close> and \<^verbatim>\<open>sorted(xs, key=key, reverse=True)\<close>: the keys are computed
  first, in the order of the list; the sort is stable, and the reversed sort keeps the
  elements of equal keys in their original order (Python reverses the list, sorts it
  and reverses the result).
\<close>

definition py_sorted :: "('a \<Rightarrow> error + 'k::linorder) \<Rightarrow> 'a list \<Rightarrow> error + 'a list" where
  "py_sorted key xs =
     (case traverse key xs of Inl e \<Rightarrow> Inl e
      | Inr ks \<Rightarrow> Inr (map snd (sort_key fst (zip ks xs))))"

definition py_sorted_reverse :: "('a \<Rightarrow> error + 'k::linorder) \<Rightarrow> 'a list \<Rightarrow> error + 'a list" where
  "py_sorted_reverse key xs =
     (case traverse key xs of Inl e \<Rightarrow> Inl e
      | Inr ks \<Rightarrow> Inr (rev (map snd (sort_key fst (rev (zip ks xs))))))"

subsection \<open>\<^verbatim>\<open>_format_types_count\<close>\<close>

text \<open>
  The key \<^verbatim>\<open>lambda x: x[1]\<close> of the sort: the count. Counts are Python ints; how Python 2
  orders other values against them is not modelled.
\<close>

fun types_count_key :: "string \<times> pyval \<Rightarrow> error + int" where
  "types_count_key (type_name, PInt n) = Inr n"
| "types_count_key (type_name, v) = Inl OutsideModel"

function format_types_count :: "pyval \<Rightarrow> pyval \<Rightarrow> error + string"
  and types_count_loop :: "(string \<times> pyval) list \<Rightarrow> pyval \<Rightarrow> error + string list"
where
  "format_types_count types_count array_types_count =
     (case py_items types_count of Inl e \<Rightarrow> Inl e
      | Inr items \<Rightarrow>
        (case py_sorted_reverse types_count_key items of Inl e \<Rightarrow> Inl e
         | Inr sorted_items \<Rightarrow>
           (case types_count_loop sorted_items array_types_count of Inl e \<Rightarrow> Inl e
            | Inr type_count_list \<Rightarrow> Inr (join '', '' type_count_list))))"
| "types_count_loop [] array_types_count = Inr []"
| "types_count_loop ((type_name, cnt) # rest) array_types_count =
     (case
        (if type_name = ''ARRAY'' then
           (case format_types_count array_types_count PNone of Inl e \<Rightarrow> Inl e
            | Inr array_type_name \<Rightarrow>
              (case py_str cnt of Inl e \<Rightarrow> Inl e
               | Inr c \<Rightarrow> Inr (''ARRAY('' @ array_type_name @ '') : '' @ c)))
         else
           (case py_str cnt of Inl e \<Rightarrow> Inl e
            | Inr c \<Rightarrow> Inr (type_name @ '' : '' @ c)))
      of Inl e \<Rightarrow> Inl e
      | Inr entry \<Rightarrow>
        (case types_count_loop rest array_types_count of Inl e \<Rightarrow> Inl e
         | Inr others \<Rightarrow> Inr (entry # others)))"
  by pat_completeness auto
termination
proof (relation "measures
    [\<lambda>x. case x of
        Inl (tc, atc) \<Rightarrow> 2 * ((if tc = PNone then 0 else 1) + (if atc = PNone then 0 else 1))
      | Inr (l, atc) \<Rightarrow> 2 * (if atc = PNone then 0 else 1) + (1::nat),
     \<lambda>x. case x of Inl (tc, atc) \<Rightarrow> 0 | Inr (l, atc) \<Rightarrow> length l]", goal_cases)
  case 1
  show ?case by simp
next
  case (2 types_count array_types_count items sorted_items)
  then have "types_count \<noteq> PNone" by auto
  then show ?case by simp
next
  case 3
  then show ?case by simp
next
  case 4
  then show ?case by simp
qed

subsection \<open>The column functions\<close>

definition field_compact_name :: "string \<Rightarrow> pyval \<Rightarrow> string \<Rightarrow> error + pyval" where
  "field_compact_name field field_schema field_prefix =
     (let separators = filter (\<lambda>c. c = CHR ''.'' \<or> c = CHR '':'') field_prefix;
          separators = concat (map (\<lambda>c. if c = CHR ''.'' then '' . '' else [c]) separators);
          separators = concat (map (\<lambda>c. if c = CHR '':'' then '' : '' else [c]) separators)
      in Inr (PStr (separators @ field)))"

definition field_depth :: "string \<Rightarrow> pyval \<Rightarrow> string \<Rightarrow> error + pyval" where
  "field_depth field field_schema field_prefix =
     (let separators = filter (\<lambda>c. c = CHR ''.'' \<or> c = CHR '':'') field_prefix
      in Inr (PInt (int (length separators))))"

definition field_type :: "string \<Rightarrow> pyval \<Rightarrow> string \<Rightarrow> error + pyval" where
  "field_type field field_schema field_prefix =
     (case py_getitem field_schema ''type'' of Inl e \<Rightarrow> Inl e
      | Inr f_type \<Rightarrow>
          if f_type = PStr ''ARRAY'' then
            (case py_getitem field_schema ''array_type'' of Inl e \<Rightarrow> Inl e
             | Inr array_type \<Rightarrow> array_of array_type)
          else Inr f_type)"

definition field_percentage :: "string \<Rightarrow> pyval \<Rightarrow> string \<Rightarrow> error + pyval" where
  "field_percentage field field_schema field_prefix =
     (case py_getitem field_schema ''prop_in_object'' of Inl e \<Rightarrow> Inl e
      | Inr p \<Rightarrow> py_mul100 p)"

definition field_types_count :: "string \<Rightarrow> pyval \<Rightarrow> string \<Rightarrow> error + pyval" where
  "field_types_count field field_schema field_prefix =
     (case py_getitem field_schema ''types_count'' of Inl e \<Rightarrow> Inl e
      | Inr types_count \<Rightarrow>
        (case py_get field_schema ''array_types_count'' of Inl e \<Rightarrow> Inl e
         | Inr array_types_count \<Rightarrow>
           (case format_types_count types_count array_types_count of Inl e \<Rightarrow> Inl e
            | Inr s \<Rightarrow> Inr (PStr s))))"

text \<open>One pass of the loop over \<^verbatim>\<open>columns_to_get\<close> in \<^verbatim>\<open>_field_schema_to_columns\<close>.\<close>

definition column_value :: "string \<Rightarrow> pyval \<Rightarrow> string \<Rightarrow> string \<Rightarrow> error + pyval" where
  "column_value field field_schema field_prefix column =
     (let column = lower column in
      if column = ''field_full_name'' then Inr (PStr (field_prefix @ field))
      else if column = ''field_compact_name'' then field_compact_name field field_schema field_prefix
      else if column = ''field_name'' then Inr (PStr field)
      else if column = ''depth'' then field_depth field field_schema field_prefix
      else if column = ''type'' then field_type field field_schema field_prefix
      else if column = ''percentage'' then field_percentage field field_schema field_prefix
      else if column = ''types_count'' then field_types_count field field_schema field_prefix
      else py_get field_schema column)"

definition field_schema_to_columns ::
  "string \<Rightarrow> pyval \<Rightarrow> string \<Rightarrow> string list \<Rightarrow> error + pyval list" where
  "field_schema_to_columns field field_schema field_prefix columns_to_get =
     traverse (column_value field field_schema field_prefix) columns_to_get"

subsection \<open>Notions used to state the properties of \<^verbatim>\<open>_format_types_count\<close>\<close>

text \<open>A \<^verbatim>\<open>types_count\<close> mapping from type names to integer counts, as a Python dict.\<close>

definition int_counts :: "(string \<times> int) list \<Rightarrow> pyval" where
  "int_counts tc = PDict (map (\<lambda>(t, n). (t, PInt n)) tc)"

text \<open>
  The list \<open>s\<close> holds the entries of \<open>tc\<close> by descending count, entries of equal count
  in the order they have in \<open>tc\<close>.
\<close>

definition sorted_by_count_desc :: "(string \<times> int) list \<Rightarrow> (string \<times> int) list \<Rightarrow> bool" where
  "sorted_by_count_desc tc s \<longleftrightarrow>
     mset s = mset tc \<and>
     sorted_wrt (\<lambda>a b. snd b \<le> snd a) s \<and>
     (\<forall>n. filter (\<lambda>x. snd x = n) s = filter (\<lambda>x. snd x = n) tc)"

text \<open>One \<^verbatim>\<open>type : count\<close> pair; the pair of \<^verbatim>\<open>ARRAY\<close> shows the array's own types.\<close>

definition render_count :: "string \<Rightarrow> string \<times> int \<Rightarrow> string" where
  "render_count array_type_name x =
     (if fst x = ''ARRAY'' then ''ARRAY('' @ array_type_name @ '') : '' @ str_int (snd x)
      else fst x @ '' : '' @ str_int (snd x))"

section \<open>The schema strategy: flattening\<close>

















section \<open>Flattening: the statements\<close>



lemma size_dict_member: "x \<in> set items \<Longrightarrow> size (snd x) < size (PDict items)"
  by (induction items) auto









text \<open>
  The count of a field as a number, and the order the fields of one object are claimed
  to be flattened in: by descending count, fields of equal count by ascending name.
\<close>

definition field_count :: "string \<times> pyval \<Rightarrow> rat" where
  "field_count x =
     (case py_getitem (snd x) ''count'' of
        Inr (PInt n) \<Rightarrow> of_int n
      | Inr (PBool b) \<Rightarrow> (if b then 1 else 0)
      | Inr (PFloat r) \<Rightarrow> r
      | _ \<Rightarrow> 0)"

definition field_precedes :: "string \<times> pyval \<Rightarrow> string \<times> pyval \<Rightarrow> bool" where
  "field_precedes x y =
     (field_count y < field_count x \<or> field_count x = field_count y \<and> fst x \<le> fst y)"

text \<open>The database and the collection a row of the data frame starts with.\<close>

fun row_owner :: "pyval list \<Rightarrow> string \<times> string" where
  "row_owner (PStr database # PStr collection # line) = (database, collection)"
| "row_owner line = ([], [])"

text \<open>
  Two values are the same up to the order of keys when they are equal, or are dicts of
  pairwise distinct keys that map the same keys to values that are the same up to the
  order of keys.
\<close>

function reordered :: "pyval \<Rightarrow> pyval \<Rightarrow> bool" where
  "reordered (PDict xs) (PDict ys) =
     (distinct (map fst xs) \<and> distinct (map fst ys) \<and> length xs = length ys \<and>
      (\<forall>x \<in> set xs. case map_of ys (fst x) of None \<Rightarrow> False
                       | Some w \<Rightarrow> reordered (snd x) w))"
| "reordered (PDict xs) PNone = False"
| "reordered (PDict xs) (PBool b) = False"
| "reordered (PDict xs) (PInt n) = False"
| "reordered (PDict xs) (PFloat r) = False"
| "reordered (PDict xs) (PStr s) = False"
| "reordered (PDict xs) (PList vs) = False"
| "reordered PNone v = (v = PNone)"
| "reordered (PBool b) v = (v = PBool b)"
| "reordered (PInt n) v = (v = PInt n)"
| "reordered (PFloat r) v = (v = PFloat r)"
| "reordered (PStr s) v = (v = PStr s)"
| "reordered (PList vs) v = (v = PList vs)"
  by pat_completeness auto
termination
proof (relation "measure (\<lambda>(a, b). size a)", goal_cases)
  case 1
  show ?case by simp
next
  case (2 xs ys x w)
  then show ?case using size_dict_member[of x xs] by simp
qed

text \<open>The fields of two lists correspond: same names, schemas the same up to key order.\<close>

definition same_field :: "string \<times> pyval \<Rightarrow> string \<times> pyval \<Rightarrow> bool" where
  "same_field x y = (fst x = fst y \<and> reordered (snd x) (snd y))"

text \<open>The example with the keys of every dict in another order.\<close>

definition shop_schema_reordered :: pyval where
  "shop_schema_reordered = PDict
     [(''audit'', PDict [(''log'', PDict [(''object'', PDict
            [(''at'', PDict [(''types_count'', PDict [(''date'', PInt 1)]), (''count'', PInt 1)])]),
          (''count'', PInt 1)])]),
      (''shop'', PDict [(''items'', PDict [(''count'', PInt 2), (''object'', PDict
            [(''sku'', PDict [(''count'', PInt 2), (''types_count'', PDict [(''string'', PInt 2)])])])]),
          (''users'', PDict [(''object'', PDict
     [(''address'', PDict [(''count'', PInt 7), (''types_count'', PDict [(''OBJECT'', PInt 7)]),
         (''object'', PDict
            [(''city'', PDict [(''count'', PInt 7), (''types_count'', PDict [(''string'', PInt 7)])]),
             (''zip'', PDict [(''count'', PInt 5), (''types_count'', PDict [(''integer'', PInt 5)])])])]),
      (''name'', PDict [(''types_count'', PDict [(''string'', PInt 10)]), (''count'', PInt 10)]),
      (''orders'', PDict [(''object'', PDict [(''id'', PDict [(''count'', PInt 6),
             (''types_count'', PDict [(''oid'', PInt 6)])])]),
         (''array_types_count'', PDict [(''OBJECT'', PInt 6)]),
         (''types_count'', PDict [(''OBJECT'', PInt 1), (''ARRAY'', PInt 3)]),
         (''count'', PInt 3)]),
      (''tags'', PDict [(''count'', PInt 7), (''array_types_count'', PDict [(''string'', PInt 12)]),
         (''types_count'', PDict [(''ARRAY'', PInt 7)])])]),
       (''count'', PInt 10)])])]"

section \<open>Properties of filtering\<close>

lemma map_of_filter_data:
  "map_of (map (\<lambda>(k, v). (k, f v)) (filter (\<lambda>(k, v). k \<notin> S) items)) key =
     (if key \<in> S then None else map_option f (map_of items key))"
  by (induction items) auto

lemma filter_data_without_counts: "without_counts (filter_data d)"
  by (induction d rule: filter_data.induct) (auto simp: list_all_iff)

lemma filter_data_fixed: "without_counts d \<Longrightarrow> filter_data d = d"
proof (induction d rule: filter_data.induct)
  case (1 items)
  have keep: "filter (\<lambda>(k, v). k \<notin> set count_keys) items = items"
    using 1(2) by (auto simp: list_all_iff intro!: filter_True)
  have "map (\<lambda>(k, v). (k, filter_data v)) items = map (\<lambda>x. x) items"
  proof (rule map_cong[OF refl])
    fix x assume x: "x \<in> set items"
    obtain k v where kv: "x = (k, v)" by (cases x)
    have ok: "without_counts v"
      using 1(2) x kv by (auto simp: list_all_iff)
    have "(k, v) \<in> set (filter (\<lambda>(k, v). k \<notin> set count_keys) items)"
      using keep x kv by simp
    then have "filter_data v = v"
      using ok by (rule 1(1)[OF _ refl])
    then show "(case x of (k, v) \<Rightarrow> (k, filter_data v)) = x"
      by (simp add: kv)
  qed
  with keep show ?case by simp
qed simp_all

lemma filter_data_path:
  "set ks \<inter> set count_keys = {} \<Longrightarrow>
     dict_path ks (filter_data d) = map_option filter_data (dict_path ks d)"
proof (induction ks arbitrary: d)
  case Nil
  show ?case by simp
next
  case (Cons k ks)
  then have k: "k \<notin> set count_keys" and ks: "set ks \<inter> set count_keys = {}" by auto
  show ?case
  proof (cases d)
    case (PDict items)
    show ?thesis
      using k Cons.IH[OF ks]
      by (simp add: PDict map_of_filter_data split: option.splits)
  qed simp_all
qed

lemma without_counts_value:
  "without_counts (PDict items) \<Longrightarrow> map_of items k = Some v \<Longrightarrow>
     k \<notin> set count_keys \<and> without_counts v"
  by (auto simp: list_all_iff dest: map_of_SomeD)

lemma without_counts_no_count_path:
  "without_counts d \<Longrightarrow> k \<in> set count_keys \<Longrightarrow> dict_path (ks @ [k]) d = None"
proof (induction ks arbitrary: d)
  case Nil
  show ?case
  proof (cases d)
    case (PDict items)
    have "map_of items k = None"
    proof (cases "map_of items k")
      case (Some v)
      then show ?thesis using without_counts_value[of items k v] Nil PDict by simp
    qed simp
    then show ?thesis by (simp add: PDict)
  qed simp_all
next
  case (Cons a ks)
  show ?case
  proof (cases d)
    case (PDict items)
    show ?thesis
    proof (cases "map_of items a")
      case None
      then show ?thesis by (simp add: PDict)
    next
      case (Some v)
      then have "without_counts v"
        using without_counts_value[of items a v] Cons.prems(1) PDict by simp
      then have "dict_path (ks @ [k]) v = None"
        using Cons.prems(2) by (rule Cons.IH)
      then show ?thesis by (simp add: PDict Some)
    qed
  qed simp_all
qed

lemma count_keys_set:
  "set count_keys = {''count'', ''types_count'', ''prop_in_object'', ''array_types_count''}"
  by (simp add: count_keys_def)

text \<open>
  C5. \<^verbatim>\<open>filter_data\<close> leaves a value that is no dict as it is. Of a dict it keeps, in
  their order, exactly the keys other than \<^verbatim>\<open>count\<close>, \<^verbatim>\<open>types_count\<close>, \<^verbatim>\<open>prop_in_object\<close>
  and \<^verbatim>\<open>array_types_count\<close>, each with the filtered copy of its value. In the result none
  of these four keys ends a path at any dict level, and every path of other keys leads
  to the filtered copy of what it led to in the input (nested \<^verbatim>\<open>object\<close> sub-schemas
  included). The function builds a new dict and never writes to its argument, so the
  model is a pure function of the input.
\<close>

theorem filter_data_removes_exactly_count_keys:
  "(\<forall>d. (\<forall>items. d \<noteq> PDict items) \<longrightarrow> filter_data d = d) \<and>
   dict_keys (filter_data (PDict items)) =
     filter (\<lambda>k. k \<notin> {''count'', ''types_count'', ''prop_in_object'', ''array_types_count''})
       (map fst items) \<and>
   (\<forall>k. py_getitem (filter_data (PDict items)) k =
        (if k \<in> {''count'', ''types_count'', ''prop_in_object'', ''array_types_count''}
         then Inl KeyError
         else map_sum id filter_data (py_getitem (PDict items) k))) \<and>
   (\<forall>ks k. k \<in> {''count'', ''types_count'', ''prop_in_object'', ''array_types_count''} \<longrightarrow>
        dict_path (ks @ [k]) (filter_data v) = None) \<and>
   (\<forall>ks. set ks \<inter> {''count'', ''types_count'', ''prop_in_object'', ''array_types_count''} = {} \<longrightarrow>
        dict_path ks (filter_data v) = map_option filter_data (dict_path ks v))"
proof -
  have nondict: "\<forall>d. (\<forall>items. d \<noteq> PDict items) \<longrightarrow> filter_data d = d"
  proof (intro allI impI)
    fix d assume "\<forall>items. d \<noteq> PDict items"
    then show "filter_data d = d" by (cases d) simp_all
  qed
  have keys: "dict_keys (filter_data (PDict items)) =
      filter (\<lambda>k. k \<notin> set count_keys) (map fst items)"
    by (induction items) auto
  have vals: "\<forall>k. py_getitem (filter_data (PDict items)) k =
        (if k \<in> set count_keys then Inl KeyError
         else map_sum id filter_data (py_getitem (PDict items) k))"
    by (auto simp: map_of_filter_data split: option.splits)
  have gone: "\<forall>ks k. k \<in> set count_keys \<longrightarrow> dict_path (ks @ [k]) (filter_data v) = None"
    using without_counts_no_count_path[OF filter_data_without_counts] by blast
  have kept: "\<forall>ks. set ks \<inter> set count_keys = {} \<longrightarrow>
      dict_path ks (filter_data v) = map_option filter_data (dict_path ks v)"
    using filter_data_path by blast
  show ?thesis
    using nondict keys vals gone kept unfolding count_keys_set by (intro conjI)
qed

theorem filter_data_removes_exactly_count_keys_witness:
  "filter_data (PInt 3) = PInt 3 \<and>
   filter_data (PList [PDict [(''count'', PInt 1)]]) = PList [PDict [(''count'', PInt 1)]] \<and>
   filter_data (PDict [(''count'', PInt 2), (''types_count'', PDict [(''OBJECT'', PInt 2)]),
       (''type'', PStr ''OBJECT''), (''prop_in_object'', PInt 1),
       (''array_types_count'', PDict []),
       (''object'', PDict [(''a'', PDict [(''types_count'', PDict [(''oid'', PInt 2)]),
          (''array_types_count'', PDict []), (''type'', PStr ''oid''), (''count'', PInt 2),
          (''prop_in_object'', PInt 1)])])])
     = PDict [(''type'', PStr ''OBJECT''),
         (''object'', PDict [(''a'', PDict [(''type'', PStr ''oid'')])])] \<and>
   dict_keys (filter_data (PDict [(''count'', PInt 2), (''types_count'', PDict [(''OBJECT'', PInt 2)]),
       (''type'', PStr ''OBJECT''), (''prop_in_object'', PInt 1),
       (''array_types_count'', PDict []),
       (''object'', PDict [(''a'', PDict [(''types_count'', PDict [(''oid'', PInt 2)]),
          (''array_types_count'', PDict []), (''type'', PStr ''oid''), (''count'', PInt 2),
          (''prop_in_object'', PInt 1)])])]))
     = [''type'', ''object''] \<and>
   dict_path [''object'', ''a'', ''type'']
     (filter_data (PDict [(''count'', PInt 2), (''types_count'', PDict [(''OBJECT'', PInt 2)]),
       (''type'', PStr ''OBJECT''), (''prop_in_object'', PInt 1),
       (''array_types_count'', PDict []),
       (''object'', PDict [(''a'', PDict [(''types_count'', PDict [(''oid'', PInt 2)]),
          (''array_types_count'', PDict []), (''type'', PStr ''oid''), (''count'', PInt 2),
          (''prop_in_object'', PInt 1)])])]))
     = Some (PStr ''oid'')"
  using filter_data_removes_exactly_count_keys
    [of "[(''count'', PInt 2), (''types_count'', PDict [(''OBJECT'', PInt 2)]),
       (''type'', PStr ''OBJECT''), (''prop_in_object'', PInt 1),
       (''array_types_count'', PDict []),
       (''object'', PDict [(''a'', PDict [(''types_count'', PDict [(''oid'', PInt 2)]),
          (''array_types_count'', PDict []), (''type'', PStr ''oid''), (''count'', PInt 2),
          (''prop_in_object'', PInt 1)])])]"
        "PDict [(''count'', PInt 2), (''types_count'', PDict [(''OBJECT'', PInt 2)]),
       (''type'', PStr ''OBJECT''), (''prop_in_object'', PInt 1),
       (''array_types_count'', PDict []),
       (''object'', PDict [(''a'', PDict [(''types_count'', PDict [(''oid'', PInt 2)]),
          (''array_types_count'', PDict []), (''type'', PStr ''oid''), (''count'', PInt 2),
          (''prop_in_object'', PInt 1)])])]"]
  by (simp add: count_keys_def)

text \<open>
  C6. Filtering twice is filtering once, and a key that is not one of the four count keys
  is never removed: neither at the top of a dict nor at the end of any path of such keys.
\<close>

theorem filter_data_idempotent:
  "filter_data (filter_data x) = filter_data x \<and>
   (k \<in> set (dict_keys x) \<and> k \<notin> set count_keys \<longrightarrow> k \<in> set (dict_keys (filter_data x))) \<and>
   (set ks \<inter> set count_keys = {} \<and> dict_path ks x \<noteq> None \<longrightarrow>
      dict_path ks (filter_data x) \<noteq> None)"
proof -
  have idem: "filter_data (filter_data x) = filter_data x"
    by (rule filter_data_fixed[OF filter_data_without_counts])
  have top: "k \<in> set (dict_keys x) \<and> k \<notin> set count_keys \<longrightarrow>
      k \<in> set (dict_keys (filter_data x))"
    by (cases x) (auto simp: image_iff)
  have deep: "set ks \<inter> set count_keys = {} \<and> dict_path ks x \<noteq> None \<longrightarrow>
      dict_path ks (filter_data x) \<noteq> None"
    by (auto simp: filter_data_path)
  show ?thesis using idem top deep by simp
qed

theorem filter_data_idempotent_witness:
  "filter_data (filter_data (PDict [(''count'', PInt 2), (''type'', PStr ''OBJECT'')]))
     = PDict [(''type'', PStr ''OBJECT'')] \<and>
   ''type'' \<in> set (dict_keys (filter_data (PDict [(''count'', PInt 2), (''type'', PStr ''OBJECT'')])))"
  using filter_data_idempotent
    [of "PDict [(''count'', PInt 2), (''type'', PStr ''OBJECT'')]" "''type''" "[''type'']"]
  by (simp add: count_keys_def)

section \<open>Properties of the type lattice\<close>

text \<open>
  C7. \<^verbatim>\<open>common_parent_type\<close> answers \<^verbatim>\<open>null\<close> for the empty list and the type itself
  for a one-element list, whatever the type: the lattice is not consulted, so the answer
  is also given for a name such as \<^verbatim>\<open>OBJECT\<close> that has no node in it.
\<close>

theorem common_parent_type_empty_and_singleton:
  "common_parent_type [] = Inr ''null'' \<and>
   common_parent_type [t] = Inr t \<and>
   ancestors_of TYPES_TREE ''OBJECT'' = None \<and>
   common_parent_type [''OBJECT''] = Inr ''OBJECT'' \<and>
   get_common_ancestor TYPES_TREE [''OBJECT''] = Inl LookupError"
  by (simp add: common_parent_type_def get_common_ancestor_def ancestors_of_def TYPES_TREE_def)

lemma types_tree_paths:
  "up_paths [] TYPES_TREE =
    [(''mixed_scalar_object'', [''mixed_scalar_object'']),
     (''general_scalar'', [''general_scalar'', ''mixed_scalar_object'']),
     (''number'', [''number'', ''general_scalar'', ''mixed_scalar_object'']),
     (''float'', [''float'', ''number'', ''general_scalar'', ''mixed_scalar_object'']),
     (''biginteger'', [''biginteger'', ''number'', ''general_scalar'', ''mixed_scalar_object'']),
     (''integer'', [''integer'', ''biginteger'', ''number'', ''general_scalar'', ''mixed_scalar_object'']),
     (''boolean'', [''boolean'', ''integer'', ''biginteger'', ''number'', ''general_scalar'', ''mixed_scalar_object'']),
     (''string'', [''string'', ''general_scalar'', ''mixed_scalar_object'']),
     (''oid'', [''oid'', ''string'', ''general_scalar'', ''mixed_scalar_object'']),
     (''dbref'', [''dbref'', ''string'', ''general_scalar'', ''mixed_scalar_object'']),
     (''date'', [''date'', ''general_scalar'', ''mixed_scalar_object'']),
     (''timestamp'', [''timestamp'', ''general_scalar'', ''mixed_scalar_object'']),
     (''unknown'', [''unknown'', ''general_scalar'', ''mixed_scalar_object'']),
     (''object'', [''object'', ''mixed_scalar_object''])]"
  by (simp add: TYPES_TREE_def)

lemma types_tree_chain: "chain_table (up_paths [] TYPES_TREE)"
  unfolding types_tree_paths chain_table_def by simp

lemma ancestors_chain:
  assumes "ancestors_of TYPES_TREE n = Some p"
  shows "distinct p" and "a \<in> set p \<Longrightarrow> ancestors_of TYPES_TREE a = Some (dropWhile (\<lambda>x. x \<noteq> a) p)"
proof -
  have "(n, p) \<in> set (up_paths [] TYPES_TREE)"
    using assms unfolding ancestors_of_def by (rule map_of_SomeD)
  then have *: "distinct p \<and> list_all (\<lambda>a. map_of (up_paths [] TYPES_TREE) a = Some (dropWhile (\<lambda>x. x \<noteq> a) p)) p"
    using types_tree_chain unfolding chain_table_def list_all_iff by blast
  show "distinct p" using * by simp
  show "a \<in> set p \<Longrightarrow> ancestors_of TYPES_TREE a = Some (dropWhile (\<lambda>x. x \<noteq> a) p)"
    using * unfolding ancestors_of_def list_all_iff by blast
qed

lemma depth_on_path:
  assumes "is_path p" and "a \<in> set p"
  shows "depth a = length (dropWhile (\<lambda>x. x \<noteq> a) p)"
proof -
  obtain n where "ancestors_of TYPES_TREE n = Some p"
    using assms(1) unfolding is_path_def by blast
  then have "ancestors_of TYPES_TREE a = Some (dropWhile (\<lambda>x. x \<noteq> a) p)"
    using assms(2) by (rule ancestors_chain(2))
  then show ?thesis unfolding depth_def by simp
qed

lemma length_takeWhile_dropWhile:
  "length (takeWhile P xs) + length (dropWhile P xs) = length xs"
  by (induction xs) auto

lemma hd_dropWhile_neq: "a \<in> set xs \<Longrightarrow> hd (dropWhile (\<lambda>x. x \<noteq> a) xs) = a"
  by (induction xs) auto

lemma same_depth_same_node:
  assumes p: "is_path p" and a: "a \<in> set p" and b: "b \<in> set p" and d: "depth a = depth b"
  shows "a = b"
proof -
  let ?da = "dropWhile (\<lambda>x. x \<noteq> a) p" and ?db = "dropWhile (\<lambda>x. x \<noteq> b) p"
  let ?ta = "takeWhile (\<lambda>x. x \<noteq> a) p" and ?tb = "takeWhile (\<lambda>x. x \<noteq> b) p"
  have len: "length ?da = length ?db"
    using depth_on_path[OF p a] depth_on_path[OF p b] d by simp
  have "length ?ta + length ?da = length p" "length ?tb + length ?db = length p"
    by (rule length_takeWhile_dropWhile)+
  then have t: "length ?ta = length ?tb" using len by simp
  have "?da = drop (length ?ta) p"
    by (rule dropWhile_eq_drop)
  also have "\<dots> = drop (length ?tb) p"
    by (simp only: t)
  also have "\<dots> = ?db"
    by (rule dropWhile_eq_drop[symmetric])
  finally have "hd ?da = hd ?db"
    by (rule arg_cong)
  moreover have "hd ?da = a"
    using a by (rule hd_dropWhile_neq)
  moreover have "hd ?db = b"
    using b by (rule hd_dropWhile_neq)
  ultimately show ?thesis
    by (simp only:)
qed

lemma dropWhile_distinct_nth:
  "distinct xs \<Longrightarrow> k < length xs \<Longrightarrow> dropWhile (\<lambda>x. x \<noteq> xs ! k) xs = drop k xs"
proof (induction xs arbitrary: k)
  case Nil
  then show ?case by simp
next
  case (Cons x xs)
  show ?case
  proof (cases k)
    case 0
    then show ?thesis by simp
  next
    case (Suc m)
    then have m: "m < length xs" using Cons.prems by simp
    then have "xs ! m \<in> set xs" by simp
    then have "x \<noteq> xs ! m" using Cons.prems(1) by auto
    then show ?thesis using Cons.IH[OF _ m] Cons.prems(1) Suc by simp
  qed
qed

text \<open>The search along the reference path finds a deepest common node.\<close>

lemma find_common_deepest:
  assumes p: "is_path reference"
    and f: "find (\<lambda>a. list_all (\<lambda>p. a \<in> set p) others) reference = Some a"
  shows "a \<in> set reference" and "\<forall>q \<in> set others. a \<in> set q"
    and "c \<in> set reference \<Longrightarrow> \<forall>q \<in> set others. c \<in> set q \<Longrightarrow> depth c \<le> depth a"
proof -
  let ?P = "\<lambda>a. list_all (\<lambda>p. a \<in> set p) others"
  obtain i where i: "i < length reference" "?P (reference ! i)" "a = reference ! i"
    "\<forall>j<i. \<not> ?P (reference ! j)"
    using f unfolding find_Some_iff by blast
  show a: "a \<in> set reference" using i by simp
  show "\<forall>q \<in> set others. a \<in> set q" using i by (simp add: list_all_iff)
  assume c: "c \<in> set reference" and call: "\<forall>q \<in> set others. c \<in> set q"
  obtain j where j: "j < length reference" "c = reference ! j"
    using c unfolding in_set_conv_nth by blast
  have "?P c" using call by (simp add: list_all_iff)
  then have ij: "i \<le> j" using i(4) j(2) by (cases "j < i") auto
  have dist: "distinct reference"
    using p unfolding is_path_def by (auto dest: ancestors_chain(1))
  have dw: "\<And>k. k < length reference \<Longrightarrow>
      dropWhile (\<lambda>x. x \<noteq> reference ! k) reference = drop k reference"
    using dist by (rule dropWhile_distinct_nth)
  have "depth c = length reference - j"
    using depth_on_path[OF p c] dw[OF j(1)] j(2) by simp
  moreover have "depth a = length reference - i"
    using depth_on_path[OF p a] dw[OF i(1)] i(3) by simp
  ultimately show "depth c \<le> depth a" using ij by simp
qed

lemma all_found_None: "all_found xs = None \<longleftrightarrow> None \<in> set xs"
  by (induction xs rule: all_found.induct) (auto split: option.splits)

lemma all_found_map_Some:
  "\<forall>x \<in> set xs. f x \<noteq> None \<Longrightarrow> all_found (map f xs) = Some (map (\<lambda>x. the (f x)) xs)"
  by (induction xs) auto

lemma root_on_every_path:
  "list_all (\<lambda>(n, p). ''mixed_scalar_object'' \<in> set p) (up_paths [] TYPES_TREE)"
  unfolding types_tree_paths by simp

lemma is_path_root: "is_path p \<Longrightarrow> ''mixed_scalar_object'' \<in> set p"
proof -
  assume "is_path p"
  then obtain n where "map_of (up_paths [] TYPES_TREE) n = Some p"
    unfolding is_path_def ancestors_of_def by blast
  then have "(n, p) \<in> set (up_paths [] TYPES_TREE)" by (rule map_of_SomeD)
  then show ?thesis using root_on_every_path unfolding list_all_iff by blast
qed

lemma known_name_has_path:
  "n \<in> set lattice_names \<Longrightarrow> ancestors_of TYPES_TREE n \<noteq> None"
  unfolding lattice_names_def ancestors_of_def by (simp add: map_of_eq_None_iff)

text \<open>The search gives the same node whichever of the paths serves as reference.\<close>

lemma find_common_perm:
  assumes paths: "\<forall>p \<in> set (r # os). is_path p"
    and perm: "mset (r' # os') = mset (r # os)"
  shows "find (\<lambda>a. list_all (\<lambda>p. a \<in> set p) os') r' = find (\<lambda>a. list_all (\<lambda>p. a \<in> set p) os) r"
proof -
  let ?F = "find (\<lambda>a. list_all (\<lambda>p. a \<in> set p) os) r"
  let ?F' = "find (\<lambda>a. list_all (\<lambda>p. a \<in> set p) os') r'"
  have sets: "set (r' # os') = set (r # os)"
    using perm by (rule mset_eq_setD)
  have r: "is_path r" and r': "is_path r'"
    using paths sets by auto
  have rin: "r \<in> set (r' # os')" and r'in: "r' \<in> set (r # os)"
    using sets by auto
  have common: "\<And>a. (a \<in> set r \<and> (\<forall>q \<in> set os. a \<in> set q)) =
      (a \<in> set r' \<and> (\<forall>q \<in> set os'. a \<in> set q))"
  proof -
    fix a
    have "(a \<in> set r \<and> (\<forall>q \<in> set os. a \<in> set q)) = (\<forall>q \<in> set (r # os). a \<in> set q)"
      by simp
    also have "\<dots> = (\<forall>q \<in> set (r' # os'). a \<in> set q)"
      by (simp only: sets)
    also have "\<dots> = (a \<in> set r' \<and> (\<forall>q \<in> set os'. a \<in> set q))"
      by simp
    finally show "(a \<in> set r \<and> (\<forall>q \<in> set os. a \<in> set q)) =
      (a \<in> set r' \<and> (\<forall>q \<in> set os'. a \<in> set q))" .
  qed
  show ?thesis
  proof (cases ?F)
    case None
    then have none: "\<And>a. a \<in> set r \<Longrightarrow> \<not> (\<forall>q \<in> set os. a \<in> set q)"
      unfolding find_None_iff list_all_iff by blast
    have "?F' = None"
    proof (cases ?F')
      case (Some a')
      have "a' \<in> set r'" "\<forall>q \<in> set os'. a' \<in> set q"
        using find_common_deepest(1,2)[OF r' Some] by simp_all
      then have "a' \<in> set r \<and> (\<forall>q \<in> set os. a' \<in> set q)"
        using common[of a'] by simp
      then show ?thesis using none by blast
    qed simp
    then show ?thesis using None by simp
  next
    case (Some a)
    have a: "a \<in> set r" "\<forall>q \<in> set os. a \<in> set q"
      using find_common_deepest(1,2)[OF r Some] by simp_all
    then have a': "a \<in> set r'" "\<forall>q \<in> set os'. a \<in> set q"
      using common[of a] by simp_all
    have "?F' \<noteq> None"
      unfolding find_None_iff list_all_iff using a' by blast
    then obtain b where b: "?F' = Some b" by blast
    have b': "b \<in> set r'" "\<forall>q \<in> set os'. b \<in> set q"
      using find_common_deepest(1,2)[OF r' b] by simp_all
    then have bb: "b \<in> set r" "\<forall>q \<in> set os. b \<in> set q"
      using common[of b] by simp_all
    have "depth b \<le> depth a"
      using find_common_deepest(3)[OF r Some bb] .
    moreover have "depth a \<le> depth b"
      using find_common_deepest(3)[OF r' b a'] .
    ultimately have "depth a = depth b" by simp
    then have "a = b"
      using same_depth_same_node[OF r a(1) bb(1)] by simp
    then show ?thesis using Some b by simp
  qed
qed

lemma get_common_ancestor_perm:
  assumes "mset names' = mset names"
  shows "get_common_ancestor TYPES_TREE names' = get_common_ancestor TYPES_TREE names"
proof -
  let ?f = "ancestors_of TYPES_TREE"
  have sets: "set names' = set names"
    using assms by (rule mset_eq_setD)
  show ?thesis
  proof (cases "\<forall>x \<in> set names. ?f x \<noteq> None")
    case False
    then obtain x where x: "x \<in> set names" "?f x = None" by blast
    then have x': "x \<in> set names'" using sets by simp
    have "None \<in> set (map ?f names)" "None \<in> set (map ?f names')"
      using x x' by force+
    then have "all_found (map ?f names) = None" "all_found (map ?f names') = None"
      by (simp_all only: all_found_None)
    then show ?thesis
      unfolding get_common_ancestor_def by simp
  next
    case True
    let ?ps = "map (\<lambda>x. the (?f x)) names" and ?ps' = "map (\<lambda>x. the (?f x)) names'"
    have af: "all_found (map ?f names) = Some ?ps" "all_found (map ?f names') = Some ?ps'"
      using True sets by (simp_all add: all_found_map_Some)
    have perm: "mset ?ps' = mset ?ps"
      using assms by (metis mset_map)
    have paths: "\<forall>p \<in> set ?ps. is_path p"
      using True unfolding is_path_def by auto
    show ?thesis
    proof (cases ?ps)
      case Nil
      then have "?ps' = []" using perm by simp
      with Nil show ?thesis unfolding get_common_ancestor_def af by simp
    next
      case (Cons r os)
      then have "?ps' \<noteq> []" using perm by auto
      then obtain r' os' where c': "?ps' = r' # os'" by (cases ?ps') auto
      have "find (\<lambda>a. list_all (\<lambda>p. a \<in> set p) os') r' =
          find (\<lambda>a. list_all (\<lambda>p. a \<in> set p) os) r"
        using paths perm unfolding Cons c' by (rule find_common_perm)
      then show ?thesis
        unfolding get_common_ancestor_def af Cons c' by simp
    qed
  qed
qed

lemma get_common_ancestor_known:
  assumes "names \<noteq> []" and "set names \<subseteq> set lattice_names"
  shows "\<exists>t. get_common_ancestor TYPES_TREE names = Inr t"
proof -
  let ?f = "ancestors_of TYPES_TREE"
  let ?ps = "map (\<lambda>x. the (?f x)) names"
  have found: "\<forall>x \<in> set names. ?f x \<noteq> None"
    using assms(2) known_name_has_path by blast
  then have af: "all_found (map ?f names) = Some ?ps"
    by (rule all_found_map_Some)
  have paths: "\<forall>p \<in> set ?ps. is_path p"
    using found unfolding is_path_def by auto
  obtain r os where c: "?ps = r # os"
    using assms(1) by (cases ?ps) auto
  have "\<forall>p \<in> set (r # os). ''mixed_scalar_object'' \<in> set p"
    using paths is_path_root unfolding c by blast
  then have "find (\<lambda>a. list_all (\<lambda>p. a \<in> set p) os) r \<noteq> None"
    unfolding find_None_iff list_all_iff by auto
  then show ?thesis
    unfolding get_common_ancestor_def af c by auto
qed

text \<open>
  C8. For a non-empty list of names that are all nodes of the lattice,
  \<^verbatim>\<open>common_parent_type\<close> returns a type, and it returns the same type for every
  rearrangement of the list.
\<close>

theorem common_parent_type_order_independent:
  assumes "type_list \<noteq> []" and "set type_list \<subseteq> set lattice_names"
    and "mset type_list' = mset type_list"
  shows "(\<exists>t. common_parent_type type_list = Inr t) \<and>
         common_parent_type type_list' = common_parent_type type_list"
proof -
  have len: "length type_list' = length type_list"
    using assms(3) by (rule mset_eq_length)
  have res: "\<exists>t. common_parent_type type_list = Inr t"
    unfolding common_parent_type_def
    using get_common_ancestor_known[OF assms(1,2)] by simp
  have "common_parent_type type_list' = common_parent_type type_list"
  proof (cases "length type_list = 1")
    case True
    then obtain t where t: "type_list = [t]" by (cases type_list) auto
    then have "type_list' = [t]" using assms(3) by simp
    then show ?thesis using t by simp
  next
    case False
    have "type_list' = [] \<longleftrightarrow> type_list = []" using len by auto
    then show ?thesis
      unfolding common_parent_type_def
      using False len get_common_ancestor_perm[OF assms(3)] by simp
  qed
  with res show ?thesis by simp
qed

theorem common_parent_type_order_independent_witness:
  "common_parent_type [''oid'', ''integer'', ''boolean''] = Inr ''general_scalar'' \<and>
   common_parent_type [''boolean'', ''oid'', ''integer''] = Inr ''general_scalar'' \<and>
   common_parent_type [''boolean'', ''integer''] = Inr ''integer'' \<and>
   common_parent_type [''integer'', ''boolean''] = Inr ''integer''"
proof -
  have a: "common_parent_type [''oid'', ''integer'', ''boolean''] = Inr ''general_scalar''"
    unfolding common_parent_type_def get_common_ancestor_def ancestors_of_def types_tree_paths
    by simp
  have b: "common_parent_type [''integer'', ''boolean''] = Inr ''integer''"
    unfolding common_parent_type_def get_common_ancestor_def ancestors_of_def types_tree_paths
    by simp
  have names: "set [''oid'', ''integer'', ''boolean''] \<subseteq> set lattice_names"
    "set [''integer'', ''boolean''] \<subseteq> set lattice_names"
    unfolding lattice_names_def types_tree_paths by simp_all
  have "common_parent_type [''boolean'', ''oid'', ''integer''] =
      common_parent_type [''oid'', ''integer'', ''boolean'']"
    using common_parent_type_order_independent
      [of "[''oid'', ''integer'', ''boolean'']" "[''boolean'', ''oid'', ''integer'']"] names
    by simp
  moreover have "common_parent_type [''boolean'', ''integer''] =
      common_parent_type [''integer'', ''boolean'']"
    using common_parent_type_order_independent
      [of "[''integer'', ''boolean'']" "[''boolean'', ''integer'']"] names
    by simp
  ultimately show ?thesis using a b by simp
qed

section \<open>Properties of the diff strategy\<close>

lemma traverse_all_Inr:
  "\<forall>x \<in> set xs. f x = Inr (g x) \<Longrightarrow> traverse f xs = Inr (map g xs)"
  by (induction xs) auto

lemma split_on_nonempty: "split_on sep s \<noteq> []"
  by (induction s) (auto split: list.splits)

lemma split_on_no_sep: "sep \<notin> set s \<Longrightarrow> split_on sep s = [s]"
  by (induction s) auto

lemma split_on_sep:
  "sep \<notin> set a \<Longrightarrow> split_on sep (a @ sep # b) = a # split_on sep b"
  by (induction a) auto

lemma first_sep_decomp:
  "x \<in> set s \<Longrightarrow> s = takeWhile (\<lambda>c. c \<noteq> x) s @ x # tl (dropWhile (\<lambda>c. c \<noteq> x) s)"
  by (induction s) auto

lemma takeWhile_no_sep: "x \<notin> set (takeWhile (\<lambda>c. c \<noteq> x) s)"
  by (auto dest: set_takeWhileD)

lemma takeWhile_all: "x \<notin> set s \<Longrightarrow> takeWhile (\<lambda>c. c \<noteq> x) s = s"
  by (induction s) auto

lemma dropWhile_all: "x \<notin> set s \<Longrightarrow> dropWhile (\<lambda>c. c \<noteq> x) s = []"
  by (induction s) auto

lemma join_split_on: "join [sep] (split_on sep s) = s"
proof (induction s)
  case Nil
  show ?case by simp
next
  case (Cons c cs)
  obtain w ws where w: "split_on sep cs = w # ws"
    using split_on_nonempty[of sep cs] by (cases "split_on sep cs") auto
  show ?case
    using Cons w by (cases ws) auto
qed

lemma prev_or_new_diff_record:
  "prev_or_new (diff_record h prev new) = Inr (py_or prev new)"
  by (simp add: prev_or_new_def diff_record_def py_or_def)

lemma diff_record_get:
  "py_getitem (diff_record h prev new) ''hierarchy'' = Inr (PStr h)"
  "py_getitem (diff_record h prev new) ''prev_schema'' = Inr prev"
  "py_getitem (diff_record h prev new) ''new_schema'' = Inr new"
  by (simp_all add: diff_record_def)

lemma diff_line_split:
  "h \<noteq> [] \<Longrightarrow> split_on CHR ''.'' h = db # hierarchy \<Longrightarrow>
   diff_line (diff_record h prev new) =
     Inr [PStr db,
          (if hierarchy = [] then py_or prev new else PStr (hd hierarchy)),
          PStr (join ''.'' (tl hierarchy)), prev, new]"
  by (simp add: diff_line_def diff_record_get prev_or_new_diff_record)

lemma diff_line_diff_record:
  "diff_line (diff_record h prev new) = Inr (diff_row_spec h prev new)"
proof -
  let ?dot = "CHR ''.''"
  consider (empty) "h = []" | (single) "h \<noteq> []" "?dot \<notin> set h" | (dotted) "?dot \<in> set h"
    by blast
  then show ?thesis
  proof cases
    case empty
    then show ?thesis
      by (simp add: diff_line_def diff_row_spec_def diff_record_get prev_or_new_diff_record)
  next
    case single
    have "split_on ?dot h = h # []"
      using single(2) by (rule split_on_no_sep)
    from diff_line_split[OF single(1) this]
    show ?thesis
      using single by (simp add: diff_row_spec_def)
  next
    case dotted
    define a where "a = takeWhile (\<lambda>c. c \<noteq> ?dot) h"
    define b where "b = tl (dropWhile (\<lambda>c. c \<noteq> ?dot) h)"
    have h: "h = a @ ?dot # b"
      unfolding a_def b_def using dotted by (rule first_sep_decomp)
    have na: "?dot \<notin> set a"
      unfolding a_def by (rule takeWhile_no_sep)
    have ne: "h \<noteq> []" using dotted by auto
    have sh: "split_on ?dot h = a # split_on ?dot b"
      unfolding h using na by (rule split_on_sep)
    have spec: "diff_row_spec h prev new =
        [PStr a, PStr (takeWhile (\<lambda>c. c \<noteq> ?dot) b),
         PStr (tl (dropWhile (\<lambda>c. c \<noteq> ?dot) b)), prev, new]"
      using ne dotted unfolding diff_row_spec_def Let_def a_def b_def by simp
    have code: "diff_line (diff_record h prev new) =
        Inr [PStr a, PStr (hd (split_on ?dot b)),
             PStr (join ''.'' (tl (split_on ?dot b))), prev, new]"
      using diff_line_split[OF ne sh] by (simp add: split_on_nonempty)
    show ?thesis
    proof (cases "?dot \<in> set b")
      case False
      have "split_on ?dot b = [b]"
        using False by (rule split_on_no_sep)
      then show ?thesis
        unfolding code spec using False by (simp add: takeWhile_all dropWhile_all)
    next
      case True
      define c where "c = takeWhile (\<lambda>c. c \<noteq> ?dot) b"
      define d where "d = tl (dropWhile (\<lambda>c. c \<noteq> ?dot) b)"
      have b: "b = c @ ?dot # d"
        unfolding c_def d_def using True by (rule first_sep_decomp)
      have "?dot \<notin> set c"
        unfolding c_def by (rule takeWhile_no_sep)
      then have "split_on ?dot (c @ ?dot # d) = c # split_on ?dot d"
        by (rule split_on_sep)
      then have sb: "split_on ?dot b = c # split_on ?dot d"
        using b by simp
      have "join ''.'' (split_on ?dot d) = d"
        by (rule join_split_on)
      then show ?thesis
        unfolding code spec sb c_def[symmetric] d_def[symmetric] by simp
    qed
  qed
qed

lemma traverse_diff_records:
  "traverse diff_line (map (\<lambda>(h, prev, new). diff_record h prev new) records) =
     Inr (map (\<lambda>(h, prev, new). diff_row_spec h prev new) records)"
  by (induction records) (auto simp: diff_line_diff_record)

text \<open>
  C4, as the code has it. Every record of hierarchy path, previous schema and new schema
  becomes one row of database, collection, remaining hierarchy, previous and new schema.
  The path is split at its dots: the first segment is the database, the second the
  collection, the other segments joined again are the remaining hierarchy. A path of one
  segment has no collection of its own: the collection is then the previous schema, or
  the new one when the previous one is falsy. Only for the empty path is the collection
  the empty string, and the database is then that previous-or-new schema.
\<close>

theorem diff_rows_from_hierarchy:
  "diff_convert_to_dataframe (map (\<lambda>(h, prev, new). diff_record h prev new) records) =
     Inr \<lparr>df_columns = [''Database'', ''Collection'', ''Hierarchy'',
                        ''Previous Schema'', ''New Schema''],
          df_rows = map (\<lambda>(h, prev, new). diff_row_spec h prev new) records\<rparr>"
  by (simp add: diff_convert_to_dataframe_def traverse_diff_records)

theorem diff_rows_from_hierarchy_witness:
  "diff_convert_to_dataframe
     [diff_record ''db.coll.a.b'' (PStr ''old'') PNone,
      diff_record ''db.coll'' PNone (PStr ''new''),
      diff_record ''db'' PNone (PStr ''new''),
      diff_record '''' (PStr ''old'') PNone] =
   Inr \<lparr>df_columns = [''Database'', ''Collection'', ''Hierarchy'',
                      ''Previous Schema'', ''New Schema''],
        df_rows =
          [[PStr ''db'', PStr ''coll'', PStr ''a.b'', PStr ''old'', PNone],
           [PStr ''db'', PStr ''coll'', PStr '''', PNone, PStr ''new''],
           [PStr ''db'', PStr ''new'', PStr '''', PNone, PStr ''new''],
           [PStr ''old'', PStr '''', PStr '''', PStr ''old'', PNone]]\<rparr>"
  using diff_rows_from_hierarchy
    [of "[(''db.coll.a.b'', PStr ''old'', PNone), (''db.coll'', PNone, PStr ''new''),
          (''db'', PNone, PStr ''new''), ('''', PStr ''old'', PNone)]"]
  by (simp add: diff_row_spec_def py_or_def)

text \<open>
  The claim as stated fails: the path \<^verbatim>\<open>db\<close> has fewer than two segments, and the
  collection of its row is the previous schema, not the empty string.
\<close>

theorem diff_collection_counterexample:
  "\<not> (\<forall>h prev new row.
        length (split_on CHR ''.'' h) < 2 \<longrightarrow>
        diff_line (diff_record h prev new) = Inr row \<longrightarrow> row ! 1 = PStr [])"
proof
  assume claim: "\<forall>h prev new row.
        length (split_on CHR ''.'' h) < 2 \<longrightarrow>
        diff_line (diff_record h prev new) = Inr row \<longrightarrow> row ! 1 = PStr []"
  have segs: "length (split_on CHR ''.'' ''db'') < 2"
    by simp
  have row: "diff_line (diff_record ''db'' (PStr ''old'') PNone) =
      Inr [PStr ''db'', PStr ''old'', PStr [], PStr ''old'', PNone]"
    by (simp add: diff_line_diff_record diff_row_spec_def py_or_def)
  from claim segs row
  have "[PStr ''db'', PStr ''old'', PStr [], PStr ''old'', PNone] ! 1 = PStr []"
    by blast
  then show False by simp
qed

section \<open>Properties of the columns\<close>

declare format_types_count.simps [simp del]

lemma traverse_total:
  "\<forall>x \<in> set xs. f x = Inr (g x) \<Longrightarrow> traverse f xs = Inr (map g xs)"
  by (induction xs) auto

lemma insort_key_map:
  "insort_key f (g x) (map g xs) = map g (insort_key (\<lambda>y. f (g y)) x xs)"
  by (induction xs) auto

lemma sort_key_map: "sort_key f (map g xs) = map g (sort_key (\<lambda>y. f (g y)) xs)"
  by (induction xs) (auto simp: insort_key_map)

lemma zip_computed_keys: "zip (map k xs) xs = map (\<lambda>x. (k x, x)) xs"
  by (induction xs) auto

lemma sort_by_computed_keys:
  "map snd (sort_key fst (zip (map k xs) xs)) = sort_key k xs"
  by (simp add: zip_computed_keys sort_key_map comp_def)

lemma py_sorted_total:
  assumes "\<forall>x \<in> set xs. key x = Inr (k x)"
  shows "py_sorted key xs = Inr (sort_key k xs)"
  using traverse_total[OF assms]
  by (simp add: py_sorted_def sort_by_computed_keys)

lemma py_sorted_reverse_total:
  assumes "\<forall>x \<in> set xs. key x = Inr (k x)"
  shows "py_sorted_reverse key xs = Inr (rev (sort_key k (rev xs)))"
proof -
  have "rev (zip (map k xs) xs) = zip (map k (rev xs)) (rev xs)"
    by (simp add: zip_computed_keys rev_map)
  then show ?thesis
    using traverse_total[OF assms]
    by (simp add: py_sorted_reverse_def sort_by_computed_keys)
qed

lemma rev_sort_sorted_by_count_desc:
  "sorted_by_count_desc tc (rev (sort_key snd (rev tc)))"
proof -
  let ?s = "sort_key snd (rev tc)"
  have "sorted (map snd ?s)" by simp
  then have "sorted_wrt (\<lambda>a b. snd a \<le> snd b) ?s"
    by (simp add: sorted_map)
  then have desc: "sorted_wrt (\<lambda>a b. snd b \<le> snd a) (rev ?s)"
    by (simp add: sorted_wrt_rev)
  have stable: "\<And>n. filter (\<lambda>x. snd x = n) (rev ?s) = filter (\<lambda>x. snd x = n) tc"
  proof -
    fix n
    have "filter (\<lambda>x. snd x = n) (rev ?s) = rev (filter (\<lambda>x. snd x = n) ?s)"
      by (rule rev_filter[symmetric])
    also have "\<dots> = rev (filter (\<lambda>x. snd x = n) (rev tc))"
      by (simp only: sort_key_stable)
    also have "\<dots> = filter (\<lambda>x. snd x = n) tc"
      by (simp add: rev_filter)
    finally show "filter (\<lambda>x. snd x = n) (rev ?s) = filter (\<lambda>x. snd x = n) tc" .
  qed
  show ?thesis
    unfolding sorted_by_count_desc_def using desc stable by simp
qed

lemma render_count_no_array:
  "''ARRAY'' \<notin> fst ` set s \<Longrightarrow> map (render_count a) s = map (render_count b) s"
  by (induction s) (auto simp: render_count_def)

lemma types_count_loop_ints:
  "types_count_loop (map (\<lambda>(t, n). (t, PInt n)) s) atc =
     (if ''ARRAY'' \<in> fst ` set s then
        (case format_types_count atc PNone of Inl e \<Rightarrow> Inl e
         | Inr a \<Rightarrow> Inr (map (render_count a) s))
      else Inr (map (render_count []) s))"
proof (induction s)
  case Nil
  show ?case by simp
next
  case (Cons x s)
  obtain t n where x: "x = (t, n)" by (cases x)
  have mem: "(''ARRAY'' \<in> fst ` set (x # s)) = (t = ''ARRAY'' \<or> ''ARRAY'' \<in> fst ` set s)"
    using x by auto
  show ?case
  proof (cases "format_types_count atc PNone")
    case (Inl e)
    then show ?thesis
      unfolding mem using Cons.IH by (simp add: x render_count_def)
  next
    case (Inr a)
    have "''ARRAY'' \<notin> fst ` set s \<Longrightarrow> map (render_count []) s = map (render_count a) s"
      by (rule render_count_no_array)
    then show ?thesis
      unfolding mem using Cons.IH Inr by (auto simp: x render_count_def)
  qed
qed

lemma format_types_count_ints:
  "format_types_count (int_counts tc) atc =
     (if ''ARRAY'' \<in> fst ` set tc then
        (case format_types_count atc PNone of Inl e \<Rightarrow> Inl e
         | Inr a \<Rightarrow> Inr (join '', '' (map (render_count a) (rev (sort_key snd (rev tc))))))
      else Inr (join '', '' (map (render_count []) (rev (sort_key snd (rev tc))))))"
proof -
  let ?g = "\<lambda>(t, n). (t, PInt n) :: string \<times> pyval"
  have keys: "\<forall>x \<in> set (map ?g tc). types_count_key x = Inr (case snd x of PInt n \<Rightarrow> n | _ \<Rightarrow> 0)"
    by auto
  have "rev (sort_key (\<lambda>x. case snd x of PInt n \<Rightarrow> n | _ \<Rightarrow> 0) (rev (map ?g tc))) =
      map ?g (rev (sort_key snd (rev tc)))"
  proof -
    have "(\<lambda>y. case snd (?g y) of PInt n \<Rightarrow> n | _ \<Rightarrow> 0) = snd"
      by (auto simp: fun_eq_iff split: prod.splits)
    then have "sort_key (\<lambda>x. case snd x of PInt n \<Rightarrow> n | _ \<Rightarrow> 0) (map ?g (rev tc)) =
        map ?g (sort_key snd (rev tc))"
      by (simp only: sort_key_map)
    then show ?thesis
      by (simp only: rev_map)
  qed
  then have sorted: "py_sorted_reverse types_count_key (map ?g tc) =
      Inr (map ?g (rev (sort_key snd (rev tc))))"
    using py_sorted_reverse_total[OF keys] by simp
  show ?thesis
    by (subst format_types_count.simps)
      (simp add: int_counts_def sorted types_count_loop_ints split: sum.splits)
qed

text \<open>
  What the code gives on counts of one level. The pairs \<^verbatim>\<open>type : count\<close> are joined by a
  comma and a blank, by descending count, pairs of equal count in the order of the
  mapping. The pair of \<^verbatim>\<open>ARRAY\<close> is \<^verbatim>\<open>ARRAY(...) : count\<close> around the formatted
  \<^verbatim>\<open>array_types_count\<close>, when that mapping has no \<^verbatim>\<open>ARRAY\<close> entry of its own.
\<close>

lemma format_types_count_one_level:
  assumes "''ARRAY'' \<notin> fst ` set atc"
  shows "\<exists>s sa.
     sorted_by_count_desc tc s \<and> sorted_by_count_desc atc sa \<and>
     format_types_count (int_counts tc) (int_counts atc) =
       Inr (join '', '' (map (render_count (join '', '' (map (render_count []) sa))) s)) \<and>
     (''ARRAY'' \<notin> fst ` set tc \<longrightarrow>
        format_types_count (int_counts tc) absent =
          Inr (join '', '' (map (render_count []) s)))"
proof -
  let ?s = "rev (sort_key snd (rev tc))" and ?sa = "rev (sort_key snd (rev atc))"
  let ?a = "join '', '' (map (render_count []) ?sa)"
  have inner: "format_types_count (int_counts atc) PNone = Inr ?a"
    using assms by (simp add: format_types_count_ints)
  have plain: "''ARRAY'' \<notin> fst ` set tc \<longrightarrow>
      format_types_count (int_counts tc) absent = Inr (join '', '' (map (render_count []) ?s))"
    by (simp add: format_types_count_ints)
  have full: "format_types_count (int_counts tc) (int_counts atc) =
      Inr (join '', '' (map (render_count ?a) ?s))"
  proof (cases "''ARRAY'' \<in> fst ` set tc")
    case True
    show ?thesis
      by (subst format_types_count_ints) (simp only: True if_True inner sum.case)
  next
    case False
    then have "''ARRAY'' \<notin> fst ` set ?s" by simp
    then have eq: "map (render_count []) ?s = map (render_count ?a) ?s"
      by (rule render_count_no_array)
    show ?thesis
      by (subst format_types_count_ints) (simp only: False if_False eq)
  qed
  show ?thesis
    using rev_sort_sorted_by_count_desc[of tc] rev_sort_sorted_by_count_desc[of atc] full plain
    by blast
qed

lemma format_types_count_examples:
  "format_types_count (int_counts [(''integer'', 10), (''boolean'', 5), (''null'', 3)]) PNone =
     Inr ''integer : 10, boolean : 5, null : 3'' \<and>
   format_types_count (int_counts [(''null'', 3), (''ARRAY'', 10)]) (int_counts [(''float'', 4)]) =
     Inr ''ARRAY(float : 4) : 10, null : 3'' \<and>
   format_types_count (int_counts [(''a'', 3), (''b'', 10), (''c'', 3), (''d'', 10)]) PNone =
     Inr ''b : 10, d : 10, a : 3, c : 3'' \<and>
   (\<exists>s sa. sorted_by_count_desc [(''null'', 3), (''ARRAY'', 10)] s \<and>
      sorted_by_count_desc [(''float'', 4)] sa \<and>
      Inr ''ARRAY(float : 4) : 10, null : 3'' =
        (Inr (join '', '' (map (render_count (join '', '' (map (render_count []) sa))) s))
           :: error + string))"
proof -
  have ev: "format_types_count (int_counts [(''integer'', 10), (''boolean'', 5), (''null'', 3)]) PNone =
      Inr ''integer : 10, boolean : 5, null : 3''"
    "format_types_count (int_counts [(''null'', 3), (''ARRAY'', 10)]) (int_counts [(''float'', 4)]) =
      Inr ''ARRAY(float : 4) : 10, null : 3''"
    "format_types_count (int_counts [(''a'', 3), (''b'', 10), (''c'', 3), (''d'', 10)]) PNone =
      Inr ''b : 10, d : 10, a : 3, c : 3''"
    by (simp_all add: format_types_count_ints render_count_def str_int_def str_nat.simps
        digit_char_def)
  have "''ARRAY'' \<notin> fst ` set [(''float'', 4::int)]" by simp
  from format_types_count_one_level[OF this, of "[(''null'', 3), (''ARRAY'', 10)]"]
  show ?thesis
    using ev by (simp only:) blast
qed

text \<open>
  C9. The column is to render the pair of \<^verbatim>\<open>ARRAY\<close> around the formatted
  \<^verbatim>\<open>array_types_count\<close>. For a field whose arrays hold arrays, \<^verbatim>\<open>array_types_count\<close> has an
  \<^verbatim>\<open>ARRAY\<close> entry itself; the nested call is given no \<^verbatim>\<open>array_types_count\<close>, formats
  \<^verbatim>\<open>None\<close> for that entry and ends in the \<^verbatim>\<open>AttributeError\<close> of \<^verbatim>\<open>None.items()\<close>: no string
  is returned, for the column and for the row.
\<close>

theorem format_types_count_array_of_arrays:
  "format_types_count (int_counts [(''ARRAY'', 10)]) (int_counts [(''ARRAY'', 4)]) =
     Inl AttributeError \<and>
   format_types_count (int_counts [(''ARRAY'', 10), (''null'', 3)])
       (int_counts [(''ARRAY'', 4), (''float'', 2)]) = Inl AttributeError \<and>
   field_schema_to_columns ''tags''
       (PDict [(''count'', PInt 10), (''types_count'', int_counts [(''ARRAY'', 10)]),
               (''array_types_count'', int_counts [(''ARRAY'', 4)])])
       [] [''field_full_name'', ''types_count''] = Inl AttributeError"
proof -
  have a: "format_types_count (int_counts [(''ARRAY'', 10)]) (int_counts [(''ARRAY'', 4)]) =
      Inl AttributeError"
    by (simp add: format_types_count_ints) (simp add: format_types_count.simps)
  have b: "format_types_count (int_counts [(''ARRAY'', 10), (''null'', 3)])
       (int_counts [(''ARRAY'', 4), (''float'', 2)]) = Inl AttributeError"
    by (simp add: format_types_count_ints) (simp add: format_types_count.simps)
  have low: "lower ''field_full_name'' = ''field_full_name''"
    "lower ''types_count'' = ''types_count''"
    by (simp_all add: lower_def lower_char_def)
  have c: "field_types_count ''tags''
       (PDict [(''count'', PInt 10), (''types_count'', int_counts [(''ARRAY'', 10)]),
               (''array_types_count'', int_counts [(''ARRAY'', 4)])]) [] = Inl AttributeError"
    by (simp add: field_types_count_def a)
  have "field_schema_to_columns ''tags''
       (PDict [(''count'', PInt 10), (''types_count'', int_counts [(''ARRAY'', 10)]),
               (''array_types_count'', int_counts [(''ARRAY'', 4)])])
       [] [''field_full_name'', ''types_count''] = Inl AttributeError"
    by (simp add: field_schema_to_columns_def column_value_def low c)
  with a b show ?thesis by simp
qed

text \<open>
  C10. For a field whose \<^verbatim>\<open>type\<close> is \<^verbatim>\<open>ARRAY\<close>, the column \<^verbatim>\<open>type\<close> looks the key
  \<^verbatim>\<open>array_type\<close> up in the field schema and renders \<^verbatim>\<open>ARRAY(\<close>that type\<^verbatim>\<open>)\<close>. When the key
  is absent the column, and with it the row, ends in a \<^verbatim>\<open>KeyError\<close>, whereas a column
  named \<^verbatim>\<open>array_type\<close> would give the value \<^verbatim>\<open>None\<close>.
\<close>

theorem field_type_reads_array_type:
  assumes "py_getitem field_schema ''type'' = Inr (PStr ''ARRAY'')"
  shows "column_value field field_schema field_prefix ''type'' =
           (case py_getitem field_schema ''array_type'' of
              Inl e \<Rightarrow> Inl e | Inr v \<Rightarrow> array_of v) \<and>
         (py_getitem field_schema ''array_type'' = Inr (PStr t) \<longrightarrow>
            column_value field field_schema field_prefix ''type'' =
              Inr (PStr (''ARRAY('' @ t @ '')''))) \<and>
         (''array_type'' \<notin> set (dict_keys field_schema) \<longrightarrow>
            column_value field field_schema field_prefix ''type'' = Inl KeyError \<and>
            field_schema_to_columns field field_schema field_prefix (''type'' # columns) =
              Inl KeyError \<and>
            column_value field field_schema field_prefix ''array_type'' = Inr PNone)"
proof -
  obtain items where d: "field_schema = PDict items"
    using assms by (cases field_schema) auto
  have low: "lower ''type'' = ''type''" "lower ''array_type'' = ''array_type''"
    by (simp_all add: lower_def lower_char_def)
  have col: "column_value field field_schema field_prefix ''type'' =
      (case py_getitem field_schema ''array_type'' of Inl e \<Rightarrow> Inl e | Inr v \<Rightarrow> array_of v)"
    using assms by (simp add: column_value_def low field_type_def)
  have absent: "''array_type'' \<notin> set (dict_keys field_schema) \<Longrightarrow>
      py_getitem field_schema ''array_type'' = Inl KeyError \<and>
      py_get field_schema ''array_type'' = Inr PNone"
    unfolding d by (simp add: map_of_eq_None_iff[THEN iffD2])
  have other: "''array_type'' \<notin> set (dict_keys field_schema) \<Longrightarrow>
      column_value field field_schema field_prefix ''array_type'' = Inr PNone"
    using absent by (simp add: column_value_def low)
  show ?thesis
    using col absent other by (auto simp: field_schema_to_columns_def)
qed

theorem field_type_reads_array_type_witness:
  "column_value ''tags'' (PDict [(''type'', PStr ''ARRAY''), (''array_type'', PStr ''OBJECT'')])
      ''doc.'' ''Type'' = Inr (PStr ''ARRAY(OBJECT)'') \<and>
   column_value ''tags'' (PDict [(''type'', PStr ''ARRAY'')]) ''doc.'' ''type'' = Inl KeyError \<and>
   field_schema_to_columns ''tags'' (PDict [(''type'', PStr ''ARRAY'')]) ''doc.''
      [''type'', ''count''] = Inl KeyError \<and>
   column_value ''tags'' (PDict [(''type'', PStr ''ARRAY'')]) ''doc.'' ''array_type'' = Inr PNone"
proof -
  have low: "lower ''Type'' = ''type''"
    by (simp add: lower_def lower_char_def)
  have same: "column_value ''tags'' (PDict [(''type'', PStr ''ARRAY''), (''array_type'', PStr ''OBJECT'')])
      ''doc.'' ''Type'' =
    column_value ''tags'' (PDict [(''type'', PStr ''ARRAY''), (''array_type'', PStr ''OBJECT'')])
      ''doc.'' ''type''"
    by (simp add: column_value_def lower_def lower_char_def)
  have a: "py_getitem (PDict [(''type'', PStr ''ARRAY''), (''array_type'', PStr ''OBJECT'')]) ''type'' =
      Inr (PStr ''ARRAY'')"
    and b: "py_getitem (PDict [(''type'', PStr ''ARRAY'')]) ''type'' = Inr (PStr ''ARRAY'')"
    by simp_all
  show ?thesis
    using field_type_reads_array_type[OF a, of "''tags''" "''doc.''" "''OBJECT''" "[]"]
      field_type_reads_array_type[OF b, of "''tags''" "''doc.''" "''OBJECT''" "[''count'']"]
      same
    by simp
qed

section \<open>Properties of flattening\<close>



















section \<open>The order of the rows\<close>

lemma insort_key_agree:
  "f x = h x \<Longrightarrow> \<forall>y \<in> set xs. f y = h y \<Longrightarrow> insort_key f x xs = insort_key h x xs"
  by (induction xs) auto

lemma sort_key_agree:
  "\<forall>x \<in> set xs. f x = h x \<Longrightarrow> sort_key f xs = sort_key h xs"
proof (induction xs)
  case Nil
  show ?case by simp
next
  case (Cons x xs)
  then have eq: "sort_key f xs = sort_key h xs" by simp
  have x: "f x = h x" using Cons.prems by simp
  have rest: "\<forall>y \<in> set (sort_key h xs). f y = h y" using Cons.prems by simp
  have "insort_key f x (sort_key h xs) = insort_key h x (sort_key h xs)"
    using x rest by (rule insort_key_agree)
  then show ?case by (simp only: sort_key_simps eq)
qed

lemma sort_key_permutation:
  assumes "mset xs = mset ys" and "inj_on f (set xs)"
  shows "sort_key f xs = sort_key f ys"
proof (rule sort_key_inj_key_eq[OF _ assms(2)])
  show "mset xs = mset (sort_key f ys)" using assms(1) by simp
  show "sorted (map f (sort_key f ys))" by simp
qed

text \<open>Two association lists that map the same distinct keys to corresponding values.\<close>

lemma assoc_keys_equal:
  assumes "distinct (map fst xs)" and "distinct (map fst ys)" and "length xs = length ys"
    and "\<forall>x \<in> set xs. map_of ys (fst x) \<noteq> None"
  shows "fst ` set xs = fst ` set ys"
proof (rule card_subset_eq)
  show "finite (fst ` set ys)" by simp
  show "fst ` set xs \<subseteq> fst ` set ys"
    using assms(4) by (auto simp: map_of_eq_None_iff)
  have "card (fst ` set xs) = length xs"
    using distinct_card[OF assms(1)] by simp
  moreover have "card (fst ` set ys) = length ys"
    using distinct_card[OF assms(2)] by simp
  ultimately show "card (fst ` set xs) = card (fst ` set ys)"
    using assms(3) by simp
qed

lemma assoc_rearranged:
  assumes dx: "distinct (map fst xs)" and dy: "distinct (map fst ys)"
    and len: "length xs = length ys"
    and all: "\<forall>x \<in> set xs. map_of ys (fst x) \<noteq> None"
  shows "mset (map (\<lambda>x. (fst x, the (map_of ys (fst x)))) xs) = mset ys"
proof -
  let ?g = "\<lambda>x. (fst x, the (map_of ys (fst x)))"
  let ?zs = "map ?g xs"
  have keys: "map fst ?zs = map fst xs" by (simp add: comp_def)
  have dz: "distinct ?zs"
    using dx keys by (metis distinct_map)
  have dys: "distinct ys" using dy by (simp add: distinct_map)
  have sub: "set ?zs \<subseteq> set ys"
  proof
    fix z assume "z \<in> set ?zs"
    then obtain x where x: "x \<in> set xs" and z: "z = ?g x" by auto
    then obtain w where "map_of ys (fst x) = Some w" using all by auto
    then show "z \<in> set ys" using z by (auto dest: map_of_SomeD)
  qed
  have "card (set ?zs) = card (set ys)"
    using distinct_card[OF dz] distinct_card[OF dys] len by simp
  then have "set ?zs = set ys"
    using sub by (intro card_subset_eq) simp_all
  then show ?thesis
    using dz dys by (simp only: set_eq_iff_mset_eq_distinct)
qed

lemma sort_corresponding:
  assumes dx: "distinct (map fst xs)" and dy: "distinct (map fst ys)"
    and len: "length xs = length ys"
    and all: "\<forall>x \<in> set xs. \<exists>w. map_of ys (fst x) = Some w \<and> R (snd x) w"
    and key: "\<And>x y. x \<in> set xs \<Longrightarrow> fst x = fst y \<Longrightarrow> R (snd x) (snd y) \<Longrightarrow> k y = k x"
    and inj: "inj_on k (set ys)"
  shows "list_all2 (\<lambda>x y. fst x = fst y \<and> R (snd x) (snd y)) (sort_key k xs) (sort_key k ys)"
proof -
  let ?g = "\<lambda>x. (fst x, the (map_of ys (fst x)))"
  have some: "\<forall>x \<in> set xs. map_of ys (fst x) \<noteq> None" using all by auto
  have m: "mset (map ?g xs) = mset ys"
    using dx dy len some by (rule assoc_rearranged)
  have rel: "\<forall>x \<in> set xs. fst x = fst (?g x) \<and> R (snd x) (snd (?g x))"
    using all by auto
  have agree: "\<forall>x \<in> set xs. k (?g x) = k x"
    using rel key by blast
  have "set (map ?g xs) = set ys" using m by (rule mset_eq_setD)
  then have "inj_on k (set (map ?g xs))" using inj by simp
  then have "sort_key k ys = sort_key k (map ?g xs)"
    using m by (intro sort_key_permutation[symmetric])
  also have "\<dots> = map ?g (sort_key (\<lambda>x. k (?g x)) xs)"
    by (rule sort_key_map)
  also have "sort_key (\<lambda>x. k (?g x)) xs = sort_key k xs"
    using agree by (intro sort_key_agree) simp
  finally have eq: "sort_key k ys = map ?g (sort_key k xs)" .
  have "list_all2 (\<lambda>x y. fst x = fst y \<and> R (snd x) (snd y)) (sort_key k xs)
      (map ?g (sort_key k xs))"
    unfolding list_all2_map2 using rel by (intro list_all2_same[THEN iffD2]) simp
  then show ?thesis by (simp only: eq)
qed

end
